theory Spec2Isabelle
  imports Main
begin

section \<open>Data model of \<open>Program.ts\<close>\<close>

text \<open>
  A persisted programme record (\<open>db.Program\<close>). The store reads four numeric fields of
  it, and the identity of an entry is built from three. A field that is absent from the
  record (\<open>undefined\<close> in the source) is \<open>None\<close>; every other field of the record is
  opaque to the store and lives in the extension part of the record.
\<close>

record db_program =
  networkId :: "int option"
  serviceId :: "int option"
  eventId :: "int option"
  startAt :: "int option"
  duration :: "int option"

text \<open>
  A \<open>ProgramItem\<close> object: the store reads its \<open>id\<close> and its \<open>data\<close>. Objects are
  held by reference; a reference is an address, and the heap says which object lives at
  an address. \<open>Program.ts\<close> never writes to an object, so the heap is only read.
\<close>

record ProgramItem =
  id' :: int
  data :: db_program

type_synonym ref = nat
type_synonym heap = "ref \<Rightarrow> ProgramItem"

text \<open>
  The state of the class \<open>Program\<close>: the array \<open>_items\<close> of references and the pending
  save timer. \<open>saveTimerId\<close> is \<open>Some d\<close> while a timer armed by \<open>save\<close> is pending, \<open>d\<close>
  being the time (in ms) at which it fires, and \<open>None\<close> when no such timer is pending
  (\<open>clearTimeout\<close> of an undefined or of a fired timer does nothing).
\<close>

record Program =
  items :: "ref list"
  saveTimerId :: "int option"

definition initial :: Program where
  "initial = \<lparr>items = [], saveTimerId = None\<rparr>"

section \<open>JavaScript primitives used by the store\<close>

text \<open>\<open>a + b\<close> on numbers that may be \<open>undefined\<close>: the sum is \<open>NaN\<close> (here \<open>None\<close>) as soon
  as one operand is absent.\<close>

definition js_add :: "int option \<Rightarrow> int option \<Rightarrow> int option" where
  "js_add a b = (case a of None \<Rightarrow> None | Some x \<Rightarrow> (case b of None \<Rightarrow> None | Some y \<Rightarrow> Some (x + y)))"

text \<open>\<open>a > b\<close>, \<open>a >= b\<close> and \<open>a < b\<close> with a number on one side and a possibly absent
  number on the other: every comparison with \<open>NaN\<close> or \<open>undefined\<close> is false.\<close>

definition js_gt :: "int \<Rightarrow> int option \<Rightarrow> bool" where
  "js_gt a b = (case b of None \<Rightarrow> False | Some y \<Rightarrow> a > y)"

definition js_ge :: "int option \<Rightarrow> int \<Rightarrow> bool" where
  "js_ge a b = (case a of None \<Rightarrow> False | Some x \<Rightarrow> x \<ge> b)"

definition js_lt :: "int option \<Rightarrow> int \<Rightarrow> bool" where
  "js_lt a b = (case a of None \<Rightarrow> False | Some x \<Rightarrow> x < b)"

text \<open>\<open>Array.prototype.indexOf\<close>: the index of the first element strictly equal to the
  argument, \<open>-1\<close> when there is none. On references strict equality is equality of
  addresses.\<close>

fun indexOf :: "'a list \<Rightarrow> 'a \<Rightarrow> int" where
  "indexOf [] x = - 1"
| "indexOf (y # ys) x =
     (if y = x then 0 else (let i = indexOf ys x in if i = - 1 then - 1 else i + 1))"

text \<open>\<open>splice(index, 1)\<close>: the array without the element at \<open>index\<close>.\<close>

definition splice1 :: "'a list \<Rightarrow> nat \<Rightarrow> 'a list" where
  "splice1 xs i = take i xs @ drop (Suc i) xs"

section \<open>The store\<close>

text \<open>\<open>save()\<close>, called at time \<open>t\<close>: the pending timer is cleared and a new one is armed
  that fires 3000 ms later.\<close>

definition save :: "int \<Rightarrow> Program \<Rightarrow> Program" where
  "save t s = s\<lparr>saveTimerId := Some (t + 3000)\<rparr>"

text \<open>\<open>get(id)\<close>: the loop over \<open>_items\<close> returns the first entry whose id is the
  argument, \<open>null\<close> (here \<open>None\<close>) when the loop ends without one.\<close>

fun get_loop :: "heap \<Rightarrow> int \<Rightarrow> ref list \<Rightarrow> ref option" where
  "get_loop h i [] = None"
| "get_loop h i (r # rs) = (if id' (h r) = i then Some r else get_loop h i rs)"

definition get :: "heap \<Rightarrow> int \<Rightarrow> Program \<Rightarrow> ref option" where
  "get h i s = get_loop h i (items s)"

definition exists :: "heap \<Rightarrow> int \<Rightarrow> Program \<Rightarrow> bool" where
  "exists h i s = (get h i s \<noteq> None)"

text \<open>\<open>add(item)\<close>, called at time \<open>t\<close>.\<close>

definition add :: "heap \<Rightarrow> int \<Rightarrow> ref \<Rightarrow> Program \<Rightarrow> Program" where
  "add h t item s =
     (if get h (id' (h item)) s = None
      then save t (s\<lparr>items := items s @ [item]\<rparr>)
      else s)"

text \<open>\<open>remove(item)\<close>, called at time \<open>t\<close>.\<close>

definition remove :: "int \<Rightarrow> ref \<Rightarrow> Program \<Rightarrow> Program" where
  "remove t item s =
     (let index = indexOf (items s) item
      in if index \<noteq> - 1
         then save t (s\<lparr>items := splice1 (items s) (nat index)\<rparr>)
         else s)"

text \<open>\<open>findByServiceId(serviceId)\<close>: the loop pushes every matching entry onto the
  result, in the order of \<open>_items\<close>.\<close>

fun findByServiceId_loop :: "heap \<Rightarrow> int \<Rightarrow> ref list \<Rightarrow> ref list \<Rightarrow> ref list" where
  "findByServiceId_loop h sid [] acc = acc"
| "findByServiceId_loop h sid (r # rs) acc =
     findByServiceId_loop h sid rs
       (if serviceId (data (h r)) = Some sid then acc @ [r] else acc)"

definition findByServiceId :: "heap \<Rightarrow> int \<Rightarrow> Program \<Rightarrow> ref list" where
  "findByServiceId h sid s = findByServiceId_loop h sid (items s) []"

text \<open>\<open>findConflicts(networkId, serviceId, start, end)\<close>.\<close>

definition conflicts :: "int \<Rightarrow> int \<Rightarrow> int \<Rightarrow> int \<Rightarrow> db_program \<Rightarrow> bool" where
  "conflicts nid sid start end d =
     (networkId d = Some nid \<and>
      serviceId d = Some sid \<and>
      js_ge (startAt d) start \<and>
      js_lt (startAt d) end)"

fun findConflicts_loop ::
  "heap \<Rightarrow> int \<Rightarrow> int \<Rightarrow> int \<Rightarrow> int \<Rightarrow> ref list \<Rightarrow> ref list \<Rightarrow> ref list" where
  "findConflicts_loop h nid sid start end [] acc = acc"
| "findConflicts_loop h nid sid start end (r # rs) acc =
     findConflicts_loop h nid sid start end rs
       (if conflicts nid sid start end (data (h r)) then acc @ [r] else acc)"

definition findConflicts :: "heap \<Rightarrow> int \<Rightarrow> int \<Rightarrow> int \<Rightarrow> int \<Rightarrow> Program \<Rightarrow> ref list" where
  "findConflicts h nid sid start end s = findConflicts_loop h nid sid start end (items s) []"

text \<open>\<open>_save()\<close>, the callback of the save timer: the argument it passes to
  \<open>db.savePrograms\<close>, the data of every entry in the order of \<open>_items\<close>.\<close>

definition priv_save :: "heap \<Rightarrow> Program \<Rightarrow> db_program list" where
  "priv_save h s = map (\<lambda>program. data (h program)) (items s)"

subsection \<open>Loading\<close>

text \<open>
  \<open>_load()\<close>. \<open>recs\<close> is what \<open>db.loadPrograms()\<close> returned and \<open>now\<close> is \<open>Date.now()\<close>. The
  callback of \<open>forEach\<close> has two guarded early returns, each setting \<open>dropped\<close>, and ends
  with \<open>new ProgramItem(program, true)\<close>. The class \<open>ProgramItem\<close> is not part of
  \<open>Program.ts\<close>, so its constructor is the parameter \<open>new\<close>: what constructing an entry
  from a record does to the state it acts on.
\<close>

fun load_forEach ::
  "int \<Rightarrow> (db_program \<Rightarrow> 'w \<Rightarrow> 'w) \<Rightarrow> db_program list \<Rightarrow> 'w \<times> bool \<Rightarrow> 'w \<times> bool" where
  "load_forEach now new [] (w, dropped) = (w, dropped)"
| "load_forEach now new (program # rest) (w, dropped) =
     (if networkId program = None then load_forEach now new rest (w, True)
      else if js_gt now (js_add (startAt program) (duration program))
      then load_forEach now new rest (w, True)
      else load_forEach now new rest (new program w, dropped))"

definition priv_load ::
  "int \<Rightarrow> (db_program \<Rightarrow> Program \<Rightarrow> Program) \<Rightarrow> db_program list \<Rightarrow> Program \<Rightarrow> Program" where
  "priv_load now new recs s =
     (case load_forEach now new recs (s, False) of
        (s', dropped) \<Rightarrow> if dropped then save now s' else s')"

text \<open>The records on which a load at time \<open>now\<close> calls the constructor, in the order of
  the calls: the loop of \<open>_load\<close> run with a constructor that only logs its argument.\<close>

definition materialized :: "int \<Rightarrow> db_program list \<Rightarrow> db_program list" where
  "materialized now recs = fst (load_forEach now (\<lambda>program log. log @ [program]) recs ([], False))"

text \<open>
  Modelled from the spec: the constructor of \<open>ProgramItem\<close> (\<open>ProgramItem.ts\<close> is not
  among the sources). The spec has an entry "registered into the store via add" and has
  load populate the store, so constructing the entry for a record registers that entry,
  the object at the reference \<open>obj program\<close>, through \<open>add\<close>.
\<close>

definition ProgramItem_new ::
  "heap \<Rightarrow> (db_program \<Rightarrow> ref) \<Rightarrow> int \<Rightarrow> db_program \<Rightarrow> Program \<Rightarrow> Program" where
  "ProgramItem_new h obj t program s = add h t (obj program) s"

subsection \<open>Garbage collection\<close>

text \<open>
  Modelled from the spec: \<open>ProgramItem.remove()\<close>, the self-removal of an entry
  (\<open>ProgramItem.ts\<close> is not among the sources). The spec has it "re-enter the store's
  removal path": it calls \<open>remove\<close> of the store on the entry itself.
\<close>

definition ProgramItem_remove :: "int \<Rightarrow> ref \<Rightarrow> Program \<Rightarrow> Program" where
  "ProgramItem_remove t item s = remove t item s"

definition expired :: "int \<Rightarrow> db_program \<Rightarrow> bool" where
  "expired now d = js_gt now (js_add (startAt d) (duration d))"

text \<open>
  The sweep, the task that \<open>_gc()\<close> queues. \<open>Array.prototype.forEach\<close> reads the length
  once, then visits the indices \<open>k = 0, ..., len - 1\<close> in turn; at each it calls the
  callback on the element that is at index \<open>k\<close> of the array at that moment, and it
  skips an index the array no longer has. The callback of the sweep removes the entry it
  is called on from that same array.
\<close>

function forEach_gc :: "heap \<Rightarrow> int \<Rightarrow> nat \<Rightarrow> nat \<Rightarrow> Program \<times> nat \<Rightarrow> Program \<times> nat" where
  "forEach_gc h now k len (s, count) =
     (if k < len
      then (if k < length (items s)
            then (let program = items s ! k
                  in if expired now (data (h program))
                     then forEach_gc h now (Suc k) len (ProgramItem_remove now program s, Suc count)
                     else forEach_gc h now (Suc k) len (s, count))
            else forEach_gc h now (Suc k) len (s, count))
      else (s, count))"
  by pat_completeness auto
termination
  by (relation "measure (\<lambda>(h, now, k, len, sc). len - k)") auto

text \<open>The state after the sweep and the count it logs. Re-arming the timer of the next
  sweep and writing the log line do not touch the store.\<close>

definition gc_sweep :: "heap \<Rightarrow> int \<Rightarrow> Program \<Rightarrow> Program \<times> nat" where
  "gc_sweep h now s = forEach_gc h now 0 (length (items s)) (s, 0)"

subsection \<open>Method calls\<close>

text \<open>A call of a public method of the store at time \<open>t\<close>: what it returns and the state
  it leaves. The methods that assign nothing return the state they were given.\<close>

datatype invocation =
  Add ref
| Get int
| Remove ref
| Exists int
| FindByServiceId int
| FindConflicts int int int int
| Save

datatype reply = Void | Item "ref option" | Bool bool | Items "ref list"

fun call :: "heap \<Rightarrow> int \<Rightarrow> invocation \<Rightarrow> Program \<Rightarrow> reply \<times> Program" where
  "call h t (Add item) s = (Void, add h t item s)"
| "call h t (Get i) s = (Item (get h i s), s)"
| "call h t (Remove item) s = (Void, remove t item s)"
| "call h t (Exists i) s = (Bool (exists h i s), s)"
| "call h t (FindByServiceId sid) s = (Items (findByServiceId h sid s), s)"
| "call h t (FindConflicts nid sid start end) s = (Items (findConflicts h nid sid start end s), s)"
| "call h t Save s = (Void, save t s)"

subsection \<open>The save timer\<close>

text \<open>
  The store together with what has been written to the database: each call of
  \<open>db.savePrograms\<close> with the time of the call and its argument. Time is the clock of the
  event loop, in ms; a timer fires when the clock reaches the time it was armed for.
\<close>

record runtime =
  store :: Program
  written :: "(int \<times> db_program list) list"

text \<open>The event loop reaches time \<open>t\<close>: a pending save timer that is due by then has
  fired, and its callback \<open>_save\<close> has written the snapshot.\<close>

definition run_timers :: "heap \<Rightarrow> int \<Rightarrow> runtime \<Rightarrow> runtime" where
  "run_timers h t w =
     (case saveTimerId (store w) of
        None \<Rightarrow> w
      | Some d \<Rightarrow>
          if d \<le> t
          then w\<lparr>store := (store w)\<lparr>saveTimerId := None\<rparr>,
                 written := written w @ [(d, priv_save h (store w))]\<rparr>
          else w)"

text \<open>A request at time \<open>t\<close>: the store's array is changed by \<open>f\<close> (as \<open>add\<close> and \<open>remove\<close>
  do before they request a save; the identity for a bare request) and \<open>save()\<close> is
  called.\<close>

fun request :: "heap \<Rightarrow> int \<times> (ref list \<Rightarrow> ref list) \<Rightarrow> runtime \<Rightarrow> runtime" where
  "request h (t, f) w =
     (let w1 = run_timers h t w
      in w1\<lparr>store := save t ((store w1)\<lparr>items := f (items (store w1))\<rparr>)\<rparr>)"

text \<open>Each request comes before the timer armed by the one before it is due.\<close>

fun within_window :: "int \<Rightarrow> int list \<Rightarrow> bool" where
  "within_window t [] = True"
| "within_window t (t' # ts) = (t \<le> t' \<and> t' < t + 3000 \<and> within_window t' ts)"

section \<open>Identity encoding\<close>

text \<open>
  \<open>getProgramId\<close> builds a string and parses it. The three arguments are numbers that
  hold integers (of magnitude below \<open>10^21\<close>, where the conversion of a number to a string
  is still its decimal expansion).
\<close>

definition digit_char :: "nat \<Rightarrow> char" where
  "digit_char d = char_of (48 + d)"

definition is_digit :: "char \<Rightarrow> bool" where
  "is_digit c = (48 \<le> (of_char c :: nat) \<and> (of_char c :: nat) \<le> 57)"

definition digit_val :: "char \<Rightarrow> nat" where
  "digit_val c = of_char c - 48"

function dec_digits :: "nat \<Rightarrow> string" where
  "dec_digits n = (if n < 10 then [digit_char n] else dec_digits (n div 10) @ [digit_char (n mod 10)])"
  by pat_completeness auto
termination
  by (relation "measure (\<lambda>n. n)") auto

text \<open>The string of an integer-valued number: what \<open>networkId + "..."\<close> puts in front.\<close>

definition Number_toString :: "int \<Rightarrow> string" where
  "Number_toString v = (if v < 0 then CHR ''-'' # dec_digits (nat (- v)) else dec_digits (nat v))"

text \<open>
  \<open>(v / 100000).toFixed(5)\<close> for an integer \<open>v\<close>. \<open>toFixed(5)\<close> takes the integer \<open>n\<close> for
  which \<open>n / 10^5\<close> is nearest to the magnitude of its argument; the quotient \<open>v / 100000\<close>
  is the double nearest to the exact quotient, far nearer to it than half of \<open>10^-5\<close>, so
  that \<open>n\<close> is the magnitude of \<open>v\<close>. The digits of \<open>n\<close> are padded with zeros on the left to
  six characters at least, and the point is put before the last five.
\<close>

definition toFixed5 :: "int \<Rightarrow> string" where
  "toFixed5 v =
     (let m = dec_digits (nat \<bar>v\<bar>);
          m = (if length m \<le> 5 then replicate (6 - length m) (CHR ''0'') @ m else m);
          k = length m
      in (if v < 0 then [CHR ''-''] else []) @ take (k - 5) m @ [CHR ''.''] @ drop (k - 5) m)"

text \<open>\<open>.slice(2)\<close>.\<close>

definition slice2 :: "string \<Rightarrow> string" where
  "slice2 str = drop 2 str"

text \<open>
  The number nearest to an integer, ties going to the even significand: a double has 53
  significant bits, so an integer of more bits is rounded to a multiple of a power of
  two. (Integers of more than 1024 bits, which become \<open>Infinity\<close>, are outside the model.)
\<close>

function bit_length :: "nat \<Rightarrow> nat" where
  "bit_length n = (if n = 0 then 0 else Suc (bit_length (n div 2)))"
  by pat_completeness auto
termination
  by (relation "measure (\<lambda>n. n)") auto

definition round_double :: "int \<Rightarrow> int" where
  "round_double v =
     (let a = nat \<bar>v\<bar>;
          e = bit_length a - 53;
          q = a div 2 ^ e;
          r = a mod 2 ^ e;
          m = (if 2 * r < 2 ^ e then q
               else if 2 ^ e < 2 * r then q + 1
               else if even q then q else q + 1)
      in sgn v * int (m * 2 ^ e))"

text \<open>
  \<open>parseInt(str, 10)\<close>: leading white space is skipped, a sign is read, and the longest
  run of decimal digits that follows is the integer; the result is the number nearest
  to it, and \<open>NaN\<close> (here \<open>None\<close>) when there is no digit.
\<close>

definition is_space :: "char \<Rightarrow> bool" where
  "is_space c = ((of_char c :: nat) = 32 \<or> (9 \<le> (of_char c :: nat) \<and> (of_char c :: nat) \<le> 13))"

definition digits_value :: "string \<Rightarrow> nat" where
  "digits_value Z = foldl (\<lambda>a c. 10 * a + digit_val c) 0 Z"

definition parseInt10 :: "string \<Rightarrow> int option" where
  "parseInt10 str =
     (let S = dropWhile is_space str;
          negative = (S \<noteq> [] \<and> hd S = CHR ''-'');
          S = (if S \<noteq> [] \<and> (hd S = CHR ''+'' \<or> hd S = CHR ''-'') then tl S else S);
          Z = takeWhile is_digit S
      in if Z = [] then None
         else Some ((if negative then - 1 else 1) * round_double (int (digits_value Z))))"

definition getProgramId :: "int \<Rightarrow> int \<Rightarrow> int \<Rightarrow> int option" where
  "getProgramId nid sid eid =
     parseInt10 (Number_toString nid @ slice2 (toFixed5 sid) @ slice2 (toFixed5 eid))"

section \<open>The invariant and the examples\<close>

text \<open>No two entries of the store have the same id.\<close>

definition unique_ids :: "heap \<Rightarrow> Program \<Rightarrow> bool" where
  "unique_ids h s = distinct (map (\<lambda>r. id' (h r)) (items s))"

text \<open>
  A heap for the examples. The objects at the addresses 0 to 4 are five programmes of
  network 1 and service 2 that start at 999, 1000, 1500, 1999 and 2000 and last 100 ms;
  the object at address \<open>r + 5\<close> is another object with the id and the data of the one
  at \<open>r\<close>.
\<close>

definition example_heap :: heap where
  "example_heap r =
     \<lparr>id' = int (r mod 5),
      data = \<lparr>networkId = Some 1, serviceId = Some 2, eventId = Some (int (r mod 5)),
              startAt = Some ([999, 1000, 1500, 1999, 2000] ! (r mod 5)),
              duration = Some 100\<rparr>\<rparr>"

definition example_store :: Program where
  "example_store = \<lparr>items = [0, 1, 2, 3, 4], saveTimerId = None\<rparr>"

text \<open>A record passes both guards of the callback of \<open>_load\<close>.\<close>

definition load_keeps :: "int \<Rightarrow> db_program \<Rightarrow> bool" where
  "load_keeps now program =
     (networkId program \<noteq> None \<and> \<not> js_gt now (js_add (startAt program) (duration program)))"



text \<open>Records for the examples: one with a network id and nothing else but a duration,
  one without a network id, one that ended at time 30, and a complete one.\<close>

definition bare_record :: db_program where
  "bare_record = \<lparr>networkId = Some 1, serviceId = None, eventId = None,
                  startAt = None, duration = Some 10\<rparr>"

definition anonymous_record :: db_program where
  "anonymous_record = \<lparr>networkId = None, serviceId = Some 2, eventId = Some 3,
                       startAt = Some 1000, duration = Some 100\<rparr>"

definition ended_record :: db_program where
  "ended_record = \<lparr>networkId = Some 1, serviceId = Some 2, eventId = Some 4,
                   startAt = Some 20, duration = Some 10\<rparr>"

definition current_record :: db_program where
  "current_record = \<lparr>networkId = Some 1, serviceId = Some 2, eventId = Some 0,
                     startAt = Some 999, duration = Some 100\<rparr>"

text \<open>The object that the examples take to be built for a record: the one at the
  address that is the record's event id.\<close>

definition example_obj :: "db_program \<Rightarrow> ref" where
  "example_obj program = (case eventId program of None \<Rightarrow> 9 | Some e \<Rightarrow> nat e)"

section \<open>Basic facts\<close>

lemma indexOf_lower: "- 1 \<le> indexOf xs x"
  by (induction xs) (auto simp: Let_def)

lemma indexOf_absent: "indexOf xs x = - 1 \<longleftrightarrow> x \<notin> set xs"
proof (induction xs)
  case Nil
  then show ?case by simp
next
  case (Cons y ys)
  have "indexOf ys x + 1 \<noteq> - 1"
    using indexOf_lower [of ys x] by arith
  with Cons show ?case by (auto simp: Let_def)
qed

lemma indexOf_nonneg: "x \<in> set xs \<Longrightarrow> 0 \<le> indexOf xs x"
  using indexOf_lower [of xs x] indexOf_absent [of xs x] by arith

lemma indexOf_bound: "indexOf xs x < int (length xs)"
  by (induction xs) (auto simp: Let_def)

lemma splice1_indexOf: "x \<in> set xs \<Longrightarrow> splice1 xs (nat (indexOf xs x)) = remove1 x xs"
proof (induction xs)
  case Nil
  then show ?case by simp
next
  case (Cons y ys)
  show ?case
  proof (cases "y = x")
    case True
    then show ?thesis by (simp add: splice1_def)
  next
    case False
    with Cons.prems have mem: "x \<in> set ys" by simp
    then have nz: "indexOf ys x \<noteq> - 1" and ge: "0 \<le> indexOf ys x"
      by (simp_all add: indexOf_absent indexOf_nonneg)
    have "nat (indexOf ys x + 1) = Suc (nat (indexOf ys x))"
      using ge by simp
    with False nz Cons.IH [OF mem] show ?thesis
      by (simp add: splice1_def Let_def)
  qed
qed

lemma get_loop_None: "get_loop h i rs = None \<longleftrightarrow> i \<notin> id' ` h ` set rs"
  by (induction rs) auto

lemma get_loop_Some: "get_loop h i rs = Some r \<Longrightarrow> r \<in> set rs \<and> id' (h r) = i"
  by (induction rs) (auto split: if_splits)

declare forEach_gc.simps [simp del]

lemma findByServiceId_loop_filter:
  "findByServiceId_loop h sid rs acc = acc @ filter (\<lambda>r. serviceId (data (h r)) = Some sid) rs"
  by (induction rs arbitrary: acc) simp_all

lemma findConflicts_loop_filter:
  "findConflicts_loop h nid sid start end rs acc =
     acc @ filter (\<lambda>r. conflicts nid sid start end (data (h r))) rs"
  by (induction rs arbitrary: acc) simp_all

lemma conflicts_iff:
  "conflicts nid sid start end d \<longleftrightarrow>
     networkId d = Some nid \<and> serviceId d = Some sid \<and>
     (\<exists>v. startAt d = Some v \<and> start \<le> v \<and> v < end)"
  by (auto simp: conflicts_def js_ge_def js_lt_def split: option.splits)

lemma findConflicts_filter:
  "findConflicts h nid sid start end s =
     filter (\<lambda>r. conflicts nid sid start end (data (h r))) (items s)"
  by (simp add: findConflicts_def findConflicts_loop_filter)

lemma get_None_iff: "get h i s = None \<longleftrightarrow> (\<forall>r\<in>set (items s). id' (h r) \<noteq> i)"
  by (auto simp: get_def get_loop_None)

lemma remove_absent: "e \<notin> set (items s) \<Longrightarrow> remove t e s = s"
  by (simp add: remove_def indexOf_absent)

lemma remove_present:
  "e \<in> set (items s) \<Longrightarrow>
     remove t e s = \<lparr>items = remove1 e (items s), saveTimerId = Some (t + 3000)\<rparr>"
  by (simp add: remove_def indexOf_absent splice1_indexOf save_def Let_def)

lemma items_remove: "items (remove t e s) = remove1 e (items s)"
  by (cases "e \<in> set (items s)") (simp_all add: remove_absent remove_present remove1_idem)

lemma distinct_map_remove1_ids:
  "distinct (map f xs) \<Longrightarrow> distinct (map f (remove1 x xs))"
proof (induction xs)
  case Nil
  then show ?case by simp
next
  case (Cons y ys)
  have "set (remove1 x ys) \<subseteq> set ys" by (rule set_remove1_subset)
  with Cons show ?case by auto
qed

lemma unique_ids_remove: "unique_ids h s \<Longrightarrow> unique_ids h (remove t e s)"
proof -
  assume "unique_ids h s"
  then have "distinct (map (\<lambda>r. id' (h r)) (remove1 e (items s)))"
    unfolding unique_ids_def by (rule distinct_map_remove1_ids)
  then show ?thesis by (simp add: unique_ids_def items_remove)
qed

lemma unique_ids_add: "unique_ids h s \<Longrightarrow> unique_ids h (add h t e s)"
  by (auto simp: unique_ids_def add_def save_def get_None_iff)

lemma forEach_gc_unique:
  "unique_ids h (fst sc) \<Longrightarrow> unique_ids h (fst (forEach_gc h now k len sc))"
proof (induction h now k len sc rule: forEach_gc.induct)
  case (1 h now k len s count)
  show ?case
  proof (cases "k < len")
    case False
    with "1.prems" show ?thesis by (subst forEach_gc.simps) simp
  next
    case True
    note kl = this
    show ?thesis
    proof (cases "k < length (items s)")
      case False
      with kl "1.IH"(3) "1.prems" show ?thesis by (subst forEach_gc.simps) simp
    next
      case True
      note kn = this
      show ?thesis
      proof (cases "expired now (data (h (items s ! k)))")
        case True
        have "unique_ids h (fst (ProgramItem_remove now (items s ! k) s, Suc count))"
          using "1.prems" by (simp add: ProgramItem_remove_def unique_ids_remove)
        from "1.IH"(1) [OF kl kn refl True this] kl kn True show ?thesis
          by (subst forEach_gc.simps) (simp add: Let_def)
      next
        case False
        from "1.IH"(2) [OF kl kn refl False "1.prems"] kl kn False show ?thesis
          by (subst forEach_gc.simps) (simp add: Let_def)
      qed
    qed
  qed
qed

section \<open>Facts about the examples\<close>

lemma example_heap_simps:
  "id' (example_heap r) = int (r mod 5)"
  "networkId (data (example_heap r)) = Some 1"
  "serviceId (data (example_heap r)) = Some 2"
  "startAt (data (example_heap r)) = Some ([999, 1000, 1500, 1999, 2000] ! (r mod 5))"
  "duration (data (example_heap r)) = Some 100"
  by (simp_all add: example_heap_def)

section \<open>Conflict detection\<close>

text \<open>
  C3. For every store and all arguments, \<open>findConflicts(networkId, serviceId, start, end)\<close>
  returns exactly the entries, in the order of the store, whose data has that network id,
  that service id and a \<open>startAt\<close> with \<open>start \<le> startAt < end\<close>. Over a store whose
  entries all have network 1, service 2 and a \<open>startAt\<close> among 999, 1000, 1500, 1999 and
  2000, \<open>findConflicts(1, 2, 1000, 2000)\<close> returns exactly those that start at 1000, 1500
  or 1999. An entry that starts before \<open>start\<close> is never returned, whatever its duration.
\<close>
theorem findConflicts_half_open:
  "findConflicts h nid sid start end s =
     filter (\<lambda>r. networkId (data (h r)) = Some nid \<and> serviceId (data (h r)) = Some sid \<and>
                 (\<exists>v. startAt (data (h r)) = Some v \<and> start \<le> v \<and> v < end)) (items s)
   \<and> ((\<forall>r\<in>set (items s). networkId (data (h r)) = Some 1 \<and> serviceId (data (h r)) = Some 2 \<and>
          startAt (data (h r)) \<in> {Some 999, Some 1000, Some 1500, Some 1999, Some 2000})
        \<longrightarrow> findConflicts h 1 2 1000 2000 s =
             filter (\<lambda>r. startAt (data (h r)) \<in> {Some 1000, Some 1500, Some 1999}) (items s))
   \<and> (\<forall>r v. startAt (data (h r)) = Some v \<and> v < start
        \<longrightarrow> r \<notin> set (findConflicts h nid sid start end s))"
proof (intro conjI)
  show "findConflicts h nid sid start end s =
     filter (\<lambda>r. networkId (data (h r)) = Some nid \<and> serviceId (data (h r)) = Some sid \<and>
                 (\<exists>v. startAt (data (h r)) = Some v \<and> start \<le> v \<and> v < end)) (items s)"
    by (simp add: findConflicts_filter conflicts_iff)
next
  show "(\<forall>r\<in>set (items s). networkId (data (h r)) = Some 1 \<and> serviceId (data (h r)) = Some 2 \<and>
          startAt (data (h r)) \<in> {Some 999, Some 1000, Some 1500, Some 1999, Some 2000})
        \<longrightarrow> findConflicts h 1 2 1000 2000 s =
             filter (\<lambda>r. startAt (data (h r)) \<in> {Some 1000, Some 1500, Some 1999}) (items s)"
  proof
    assume a: "\<forall>r\<in>set (items s). networkId (data (h r)) = Some 1 \<and> serviceId (data (h r)) = Some 2 \<and>
          startAt (data (h r)) \<in> {Some 999, Some 1000, Some 1500, Some 1999, Some 2000}"
    have "filter (\<lambda>r. conflicts 1 2 1000 2000 (data (h r))) (items s) =
          filter (\<lambda>r. startAt (data (h r)) \<in> {Some 1000, Some 1500, Some 1999}) (items s)"
    proof (rule filter_cong [OF refl])
      fix r assume "r \<in> set (items s)"
      with a have "networkId (data (h r)) = Some 1" "serviceId (data (h r)) = Some 2"
        "startAt (data (h r)) \<in> {Some 999, Some 1000, Some 1500, Some 1999, Some 2000}"
        by simp_all
      then show "conflicts 1 2 1000 2000 (data (h r)) =
                 (startAt (data (h r)) \<in> {Some 1000, Some 1500, Some 1999})"
        by (auto simp: conflicts_iff)
    qed
    then show "findConflicts h 1 2 1000 2000 s =
             filter (\<lambda>r. startAt (data (h r)) \<in> {Some 1000, Some 1500, Some 1999}) (items s)"
      by (simp add: findConflicts_filter)
  qed
next
  show "\<forall>r v. startAt (data (h r)) = Some v \<and> v < start
        \<longrightarrow> r \<notin> set (findConflicts h nid sid start end s)"
    by (auto simp: findConflicts_filter conflicts_iff)
qed

theorem findConflicts_half_open_witness:
  "map (\<lambda>r. (networkId (data (example_heap r)), serviceId (data (example_heap r)),
               startAt (data (example_heap r)))) (items example_store) =
     [(Some 1, Some 2, Some 999), (Some 1, Some 2, Some 1000), (Some 1, Some 2, Some 1500),
      (Some 1, Some 2, Some 1999), (Some 1, Some 2, Some 2000)]
   \<and> findConflicts example_heap 1 2 1000 2000 example_store = [1, 2, 3]
   \<and> startAt (data (example_heap 0)) = Some 999 \<and> (999::int) < 1000
   \<and> js_add (startAt (data (example_heap 0))) (duration (data (example_heap 0))) = Some 1099
   \<and> 0 \<notin> set (findConflicts example_heap 1 2 1000 2000 example_store)"
proof -
  have fields: "map (\<lambda>r. (networkId (data (example_heap r)), serviceId (data (example_heap r)),
               startAt (data (example_heap r)))) (items example_store) =
     [(Some 1, Some 2, Some 999), (Some 1, Some 2, Some 1000), (Some 1, Some 2, Some 1500),
      (Some 1, Some 2, Some 1999), (Some 1, Some 2, Some 2000)]"
    by (simp add: example_store_def example_heap_simps)
  have hyp: "\<forall>r\<in>set (items example_store).
      networkId (data (example_heap r)) = Some 1 \<and> serviceId (data (example_heap r)) = Some 2 \<and>
      startAt (data (example_heap r)) \<in> {Some 999, Some 1000, Some 1500, Some 1999, Some 2000}"
    by (simp add: example_store_def example_heap_simps)
  have early: "startAt (data (example_heap 0)) = Some 999 \<and> (999::int) < 1000"
    by (simp add: example_heap_simps)
  have overlap: "js_add (startAt (data (example_heap 0))) (duration (data (example_heap 0))) =
      Some 1099"
    by (simp add: example_heap_simps js_add_def)
  note inst = findConflicts_half_open [of example_heap 1 2 1000 2000 example_store]
  from inst hyp have "findConflicts example_heap 1 2 1000 2000 example_store =
      filter (\<lambda>r. startAt (data (example_heap r)) \<in> {Some 1000, Some 1500, Some 1999})
        (items example_store)"
    by blast
  then have res: "findConflicts example_heap 1 2 1000 2000 example_store = [1, 2, 3]"
    by (simp add: example_store_def example_heap_simps)
  from inst early have "0 \<notin> set (findConflicts example_heap 1 2 1000 2000 example_store)"
    by blast
  with fields res early overlap show ?thesis
    by (intro conjI) simp_all
qed

section \<open>Insertion\<close>

text \<open>
  C4. For every store and entry \<open>e\<close>: when an entry with the id of \<open>e\<close> is present,
  \<open>add(e)\<close> leaves the store as it is (the array and the timer; the model has no error
  to raise); when none is, \<open>add(e)\<close> puts \<open>e\<close> at the end of the array and arms the save
  timer for 3000 ms later.
\<close>

theorem add_first_writer_wins:
  "((\<exists>r\<in>set (items s). id' (h r) = id' (h e)) \<longrightarrow> add h t e s = s)
   \<and> ((\<forall>r\<in>set (items s). id' (h r) \<noteq> id' (h e)) \<longrightarrow>
        add h t e s = \<lparr>items = items s @ [e], saveTimerId = Some (t + 3000)\<rparr>)"
proof (intro conjI impI)
  assume "\<exists>r\<in>set (items s). id' (h r) = id' (h e)"
  then have "get h (id' (h e)) s \<noteq> None"
    by (simp add: get_None_iff)
  then show "add h t e s = s"
    by (auto simp: add_def)
next
  assume "\<forall>r\<in>set (items s). id' (h r) \<noteq> id' (h e)"
  then have "get h (id' (h e)) s = None"
    by (simp add: get_None_iff)
  then show "add h t e s = \<lparr>items = items s @ [e], saveTimerId = Some (t + 3000)\<rparr>"
    by (simp add: add_def save_def)
qed

theorem add_first_writer_wins_witness:
  "(\<exists>r\<in>set (items example_store). id' (example_heap r) = id' (example_heap 7))
   \<and> add example_heap 50 7 example_store = example_store
   \<and> map (\<lambda>r. id' (example_heap r)) (items (example_store\<lparr>items := [0, 1]\<rparr>)) = [0, 1]
   \<and> id' (example_heap 7) = 2
   \<and> add example_heap 50 7 (example_store\<lparr>items := [0, 1]\<rparr>) =
       \<lparr>items = [0, 1, 7], saveTimerId = Some 3050\<rparr>"
proof -
  have present: "\<exists>r\<in>set (items example_store). id' (example_heap r) = id' (example_heap 7)"
    by (simp add: example_store_def example_heap_simps)
  have ids: "map (\<lambda>r. id' (example_heap r)) (items (example_store\<lparr>items := [0, 1]\<rparr>)) = [0, 1]"
    and id7: "id' (example_heap 7) = 2"
    by (simp_all add: example_heap_simps)
  have absent: "\<forall>r\<in>set (items (example_store\<lparr>items := [0, 1]\<rparr>)).
      id' (example_heap r) \<noteq> id' (example_heap 7)"
    by (simp add: example_heap_simps)
  from add_first_writer_wins [of example_store example_heap 7 50] present
  have noop: "add example_heap 50 7 example_store = example_store"
    by blast
  from add_first_writer_wins [of "example_store\<lparr>items := [0, 1]\<rparr>" example_heap 7 50] absent
  have "add example_heap 50 7 (example_store\<lparr>items := [0, 1]\<rparr>) =
      \<lparr>items = items (example_store\<lparr>items := [0, 1]\<rparr>) @ [7], saveTimerId = Some (50 + 3000)\<rparr>"
    by blast
  then have app: "add example_heap 50 7 (example_store\<lparr>items := [0, 1]\<rparr>) =
      \<lparr>items = [0, 1, 7], saveTimerId = Some 3050\<rparr>"
    by simp
  show ?thesis
    by (rule conjI [OF present conjI [OF noop conjI [OF ids conjI [OF id7 app]]]])
qed

section \<open>Removal\<close>

lemma filter_others_remove1: "filter (\<lambda>r. r \<noteq> e) (remove1 e xs) = filter (\<lambda>r. r \<noteq> e) xs"
  by (induction xs) auto

text \<open>
  C6. For every store and reference \<open>e\<close>, \<open>remove(e)\<close> goes by the reference and not by
  the id. When \<open>e\<close> is not in the array, the store stays exactly as it is, timer
  included, even if an entry with the id of \<open>e\<close> is there. When \<open>e\<close> is in the array, its
  (first) occurrence is taken out, the array is one shorter, the other entries stay as
  they were and in their order, and the save timer is armed for 3000 ms later; in an
  array without repetition \<open>e\<close> is then gone.
\<close>

theorem remove_by_reference:
  "(e \<notin> set (items s) \<longrightarrow> remove t e s = s)
   \<and> (e \<in> set (items s) \<longrightarrow>
        remove t e s = \<lparr>items = remove1 e (items s), saveTimerId = Some (t + 3000)\<rparr>
        \<and> Suc (length (items (remove t e s))) = length (items s)
        \<and> filter (\<lambda>r. r \<noteq> e) (items (remove t e s)) = filter (\<lambda>r. r \<noteq> e) (items s)
        \<and> (distinct (items s) \<longrightarrow> set (items (remove t e s)) = set (items s) - {e}))"
proof (intro conjI impI)
  assume "e \<notin> set (items s)"
  then show "remove t e s = s" by (rule remove_absent)
next
  assume mem: "e \<in> set (items s)"
  then show "remove t e s = \<lparr>items = remove1 e (items s), saveTimerId = Some (t + 3000)\<rparr>"
    by (rule remove_present)
  from mem show "Suc (length (items (remove t e s))) = length (items s)"
    by (simp add: items_remove length_remove1) (cases "items s", auto)
  show "filter (\<lambda>r. r \<noteq> e) (items (remove t e s)) = filter (\<lambda>r. r \<noteq> e) (items s)"
    by (simp add: items_remove filter_others_remove1)
next
  assume "e \<in> set (items s)" and "distinct (items s)"
  then show "set (items (remove t e s)) = set (items s) - {e}"
    by (simp add: items_remove)
qed

theorem remove_by_reference_witness:
  "7 \<notin> set (items example_store)
   \<and> (\<exists>r\<in>set (items example_store). id' (example_heap r) = id' (example_heap 7))
   \<and> remove 50 7 example_store = example_store
   \<and> 2 \<in> set (items example_store) \<and> distinct (items example_store)
   \<and> remove 50 2 example_store = \<lparr>items = [0, 1, 3, 4], saveTimerId = Some 3050\<rparr>
   \<and> set (items (remove 50 2 example_store)) = {0, 1, 3, 4}"
proof -
  have out: "7 \<notin> set (items example_store)"
    and same_id: "\<exists>r\<in>set (items example_store). id' (example_heap r) = id' (example_heap 7)"
    and mem: "2 \<in> set (items example_store)"
    and dist: "distinct (items example_store)"
    by (simp_all add: example_store_def example_heap_simps)
  from remove_by_reference [of 7 example_store 50] out
  have noop: "remove 50 7 example_store = example_store"
    by blast
  from remove_by_reference [of 2 example_store 50] mem dist
  have "remove 50 2 example_store =
          \<lparr>items = remove1 2 (items example_store), saveTimerId = Some (50 + 3000)\<rparr>"
    and "set (items (remove 50 2 example_store)) = set (items example_store) - {2}"
    by blast+
  then have gone: "remove 50 2 example_store = \<lparr>items = [0, 1, 3, 4], saveTimerId = Some 3050\<rparr>"
    and rest: "set (items (remove 50 2 example_store)) = {0, 1, 3, 4}"
    by (auto simp: example_store_def)
  from out same_id noop mem dist gone rest show ?thesis by blast
qed

section \<open>Read-only operations\<close>

lemma findByServiceId_filter:
  "findByServiceId h sid s = filter (\<lambda>r. serviceId (data (h r)) = Some sid) (items s)"
  by (simp add: findByServiceId_def findByServiceId_loop_filter)

text \<open>
  C10. For every store, a call of \<open>get(id)\<close>, \<open>exists(id)\<close>, \<open>findByServiceId(serviceId)\<close>
  or \<open>findConflicts(networkId, serviceId, start, end)\<close> leaves the store as it was: the
  array is the same and the save timer is neither armed nor cancelled. The lists that
  \<open>findByServiceId\<close> and \<open>findConflicts\<close> return are the matching entries in the order of
  the array.
\<close>

theorem readers_leave_store:
  "snd (call h t (Get i) s) = s
   \<and> snd (call h t (Exists i) s) = s
   \<and> snd (call h t (FindByServiceId sid) s) = s
   \<and> snd (call h t (FindConflicts nid sid start end) s) = s
   \<and> fst (call h t (FindByServiceId sid) s) =
       Items (filter (\<lambda>r. serviceId (data (h r)) = Some sid) (items s))
   \<and> fst (call h t (FindConflicts nid sid start end) s) =
       Items (filter (\<lambda>r. conflicts nid sid start end (data (h r))) (items s))"
  by (simp add: findByServiceId_filter findConflicts_filter)

theorem readers_leave_store_witness:
  "snd (call example_heap 50 (Get 3) example_store) = example_store
   \<and> snd (call example_heap 50 (Exists 9) example_store) = example_store
   \<and> snd (call example_heap 50 (FindByServiceId 2) example_store) = example_store
   \<and> snd (call example_heap 50 (FindConflicts 1 2 1000 2000) example_store) = example_store
   \<and> fst (call example_heap 50 (FindByServiceId 2) example_store) = Items [0, 1, 2, 3, 4]
   \<and> fst (call example_heap 50 (FindConflicts 1 2 1000 2000) example_store) = Items [1, 2, 3]"
  using readers_leave_store [of example_heap 50 3 example_store 2 1 1000 2000]
    readers_leave_store [of example_heap 50 9 example_store 2 1 1000 2000]
  by (simp add: example_store_def example_heap_simps conflicts_iff)

section \<open>Loading\<close>

lemma load_forEach_fold:
  "load_forEach now new recs (w, d) =
     (fold new (filter (load_keeps now) recs) w, d \<or> (\<exists>p\<in>set recs. \<not> load_keeps now p))"
  by (induction recs arbitrary: w d) (auto simp: load_keeps_def)

lemma fold_log: "fold (\<lambda>program log. log @ [program]) xs acc = acc @ xs"
  by (induction xs arbitrary: acc) simp_all

lemma materialized_filter: "materialized now recs = filter (load_keeps now) recs"
  by (simp add: materialized_def load_forEach_fold fold_log)

lemma dropped_iff_shorter:
  "(\<exists>p\<in>set recs. \<not> P p) \<longleftrightarrow> length (filter P recs) < length recs"
proof
  assume "\<exists>p\<in>set recs. \<not> P p"
  then show "length (filter P recs) < length recs"
    by (auto intro: length_filter_less)
next
  assume less: "length (filter P recs) < length recs"
  show "\<exists>p\<in>set recs. \<not> P p"
  proof (rule ccontr)
    assume "\<not> (\<exists>p\<in>set recs. \<not> P p)"
    then have "filter P recs = recs" by (simp add: filter_id_conv)
    with less show False by simp
  qed
qed

lemma priv_load_fold:
  "priv_load now new recs s =
     (if length (materialized now recs) < length recs
      then save now (fold new (materialized now recs) s)
      else fold new (materialized now recs) s)"
  by (simp add: priv_load_def load_forEach_fold materialized_filter dropped_iff_shorter)

lemma js_gt_absent:
  "a = None \<or> b = None \<Longrightarrow> \<not> js_gt now (js_add a b)"
  by (auto simp: js_gt_def js_add_def split: option.splits)

lemma fold_preserves:
  assumes "\<And>x s. P s \<Longrightarrow> P (f x s)" and "P s"
  shows "P (fold f xs s)"
  using assms(2) by (induction xs arbitrary: s) (simp_all add: assms(1))

lemma unique_ids_save: "unique_ids h (save t s) = unique_ids h s"
  by (simp add: unique_ids_def save_def)

lemma unique_ids_load:
  "unique_ids h s \<Longrightarrow> unique_ids h (priv_load now (ProgramItem_new h obj t) recs s)"
proof -
  assume "unique_ids h s"
  then have "unique_ids h (fold (ProgramItem_new h obj t) (materialized now recs) s)"
    by (rule fold_preserves [rotated]) (simp add: ProgramItem_new_def unique_ids_add)
  then show ?thesis
    by (simp add: priv_load_fold unique_ids_save)
qed

lemma example_record_simps:
  "networkId current_record = Some 1" "startAt current_record = Some 999"
  "duration current_record = Some 100" "eventId current_record = Some 0"
  "networkId anonymous_record = None"
  "networkId ended_record = Some 1" "startAt ended_record = Some 20"
  "duration ended_record = Some 10"
  "networkId bare_record = Some 1" "serviceId bare_record = None" "eventId bare_record = None"
  "startAt bare_record = None" "duration bare_record = Some 10"
  by (simp_all add: current_record_def anonymous_record_def ended_record_def bare_record_def)





text \<open>
  C9. The test by which a load drops a record looks at two things only, whether
  \<open>networkId\<close> is absent and whether \<open>now > startAt + duration\<close>: a record of the list is
  constructed exactly when neither holds. So a record that has a \<open>networkId\<close> is
  constructed when its \<open>startAt\<close> or its \<open>duration\<close> is absent, because the comparison is
  then false, and erasing \<open>serviceId\<close> and \<open>eventId\<close> from every record changes nothing
  in which records are constructed.
\<close>

theorem load_tests_two_conditions:
  "(p \<in> set (materialized now recs) \<longleftrightarrow>
      p \<in> set recs \<and> networkId p \<noteq> None \<and> \<not> js_gt now (js_add (startAt p) (duration p)))
   \<and> (p \<in> set recs \<and> networkId p \<noteq> None \<and> (startAt p = None \<or> duration p = None)
        \<longrightarrow> p \<in> set (materialized now recs))
   \<and> (startAt p = None \<or> duration p = None
        \<longrightarrow> \<not> js_gt now (js_add (startAt p) (duration p)))
   \<and> materialized now (map (\<lambda>q. q\<lparr>serviceId := None, eventId := None\<rparr>) recs) =
       map (\<lambda>q. q\<lparr>serviceId := None, eventId := None\<rparr>) (materialized now recs)"
proof (intro conjI)
  show "p \<in> set (materialized now recs) \<longleftrightarrow>
      p \<in> set recs \<and> networkId p \<noteq> None \<and> \<not> js_gt now (js_add (startAt p) (duration p))"
    by (auto simp: materialized_filter load_keeps_def)
  show "p \<in> set recs \<and> networkId p \<noteq> None \<and> (startAt p = None \<or> duration p = None)
        \<longrightarrow> p \<in> set (materialized now recs)"
    using js_gt_absent [of "startAt p" "duration p" now]
    by (auto simp: materialized_filter load_keeps_def)
  show "startAt p = None \<or> duration p = None
        \<longrightarrow> \<not> js_gt now (js_add (startAt p) (duration p))"
    using js_gt_absent [of "startAt p" "duration p" now] by blast
  have "load_keeps now \<circ> (\<lambda>q. q\<lparr>serviceId := None, eventId := None\<rparr>) = load_keeps now"
    by (rule ext) (simp add: load_keeps_def)
  then show "materialized now (map (\<lambda>q. q\<lparr>serviceId := None, eventId := None\<rparr>) recs) =
       map (\<lambda>q. q\<lparr>serviceId := None, eventId := None\<rparr>) (materialized now recs)"
    by (simp add: materialized_filter filter_map)
qed

theorem load_tests_two_conditions_witness:
  "bare_record \<in> set [anonymous_record, bare_record]
   \<and> networkId bare_record \<noteq> None \<and> startAt bare_record = None
   \<and> serviceId bare_record = None \<and> eventId bare_record = None
   \<and> bare_record \<in> set (materialized 50 [anonymous_record, bare_record])
   \<and> \<not> js_gt 50 (js_add (startAt bare_record) (duration bare_record))
   \<and> anonymous_record \<notin> set (materialized 50 [anonymous_record, bare_record])"
proof -
  have hyp: "bare_record \<in> set [anonymous_record, bare_record]
      \<and> networkId bare_record \<noteq> None \<and> (startAt bare_record = None \<or> duration bare_record = None)"
    and fields: "startAt bare_record = None" "serviceId bare_record = None"
      "eventId bare_record = None" "networkId anonymous_record = None"
    by (simp_all add: example_record_simps)
  note inst = load_tests_two_conditions [of bare_record 50 "[anonymous_record, bare_record]"]
  from inst hyp have kept: "bare_record \<in> set (materialized 50 [anonymous_record, bare_record])"
    by blast
  from inst fields have cmp: "\<not> js_gt 50 (js_add (startAt bare_record) (duration bare_record))"
    by blast
  from load_tests_two_conditions [of anonymous_record 50 "[anonymous_record, bare_record]"] fields
  have "anonymous_record \<notin> set (materialized 50 [anonymous_record, bare_record])"
    by blast
  with hyp fields kept cmp show ?thesis by blast
qed

section \<open>Garbage collection\<close>

lemma example_expired:
  "expired 1200 (data (example_heap 0))" "expired 1200 (data (example_heap 1))"
  "\<not> expired 1200 (data (example_heap 2))"
  by (simp_all add: expired_def example_heap_simps js_gt_def js_add_def)

lemma forEach_gc_invariant:
  "(\<forall>s c r. P s c \<longrightarrow> r \<in> set (items s) \<longrightarrow> expired now (data (h r)) \<longrightarrow>
       P (remove now r s) (Suc c)) \<Longrightarrow>
   P (fst sc) (snd sc) \<Longrightarrow>
   P (fst (forEach_gc h now k len sc)) (snd (forEach_gc h now k len sc))"
proof (induction h now k len sc rule: forEach_gc.induct)
  case (1 h now k len s count)
  show ?case
  proof (cases "k < len")
    case False
    with "1.prems"(2) show ?thesis by (subst (1 2) forEach_gc.simps) simp
  next
    case True
    note kl = this
    show ?thesis
    proof (cases "k < length (items s)")
      case False
      with kl "1.IH"(3) "1.prems" show ?thesis by (subst (1 2) forEach_gc.simps) simp
    next
      case True
      note kn = this
      show ?thesis
      proof (cases "expired now (data (h (items s ! k)))")
        case True
        have "P (remove now (items s ! k) s) (Suc count)"
          using "1.prems" kn True by simp
        then have "P (fst (ProgramItem_remove now (items s ! k) s, Suc count))
                     (snd (ProgramItem_remove now (items s ! k) s, Suc count))"
          by (simp add: ProgramItem_remove_def)
        from "1.IH"(1) [OF kl kn refl True "1.prems"(1) this] kl kn True show ?thesis
          by (subst (1 2) forEach_gc.simps) (simp add: Let_def)
      next
        case False
        from "1.IH"(2) [OF kl kn refl False "1.prems"] kl kn False show ?thesis
          by (subst (1 2) forEach_gc.simps) (simp add: Let_def)
      qed
    qed
  qed
qed

lemma gc_sweep_removes_only_expired:
  "length (items (fst (gc_sweep h now s))) + snd (gc_sweep h now s) = length (items s)
   \<and> set (items (fst (gc_sweep h now s))) \<subseteq> set (items s)
   \<and> (\<forall>r\<in>set (items s). \<not> expired now (data (h r)) \<longrightarrow> r \<in> set (items (fst (gc_sweep h now s))))"
proof -
  let ?P = "\<lambda>s' c. length (items s') + c = length (items s)
     \<and> set (items s') \<subseteq> set (items s)
     \<and> (\<forall>r\<in>set (items s). \<not> expired now (data (h r)) \<longrightarrow> r \<in> set (items s'))"
  have step: "\<forall>s' c r. ?P s' c \<longrightarrow> r \<in> set (items s') \<longrightarrow> expired now (data (h r)) \<longrightarrow>
                   ?P (remove now r s') (Suc c)"
  proof (intro allI impI)
    fix s' :: Program and c :: nat and r :: ref
    assume p: "?P s' c" and mem: "r \<in> set (items s')" and ex: "expired now (data (h r))"
    from mem have len: "Suc (length (remove1 r (items s'))) = length (items s')"
      by (simp add: length_remove1) (cases "items s'", auto)
    have sub: "set (remove1 r (items s')) \<subseteq> set (items s')"
      by (rule set_remove1_subset)
    have keep: "\<forall>x\<in>set (items s). \<not> expired now (data (h x)) \<longrightarrow>
        x \<in> set (remove1 r (items s'))"
    proof (intro ballI impI)
      fix x
      assume "x \<in> set (items s)" and live: "\<not> expired now (data (h x))"
      with p have "x \<in> set (items s')" by blast
      moreover from ex live have "x \<noteq> r" by blast
      ultimately show "x \<in> set (remove1 r (items s'))" by simp
    qed
    from p len have "length (remove1 r (items s')) + Suc c = length (items s)"
      by simp
    moreover from p sub have "set (remove1 r (items s')) \<subseteq> set (items s)"
      by blast
    ultimately show "?P (remove now r s') (Suc c)"
      using keep by (simp add: items_remove)
  qed
  have "?P (fst (s, 0::nat)) (snd (s, 0::nat))" by simp
  from forEach_gc_invariant [where P = ?P and k = 0 and len = "length (items s)", OF step this]
  show ?thesis by (simp add: gc_sweep_def)
qed

text \<open>
  C1. The claim is that a single sweep at time \<open>T\<close> removes exactly the entries with
  \<open>startAt + duration < T\<close>, leaves every other entry in place and reports the number of
  entries it removed. The sweep removes entries from the array it is iterating over, so
  the entry that follows a removed one moves into the index just visited and is never
  looked at. On the store of the entries 0, 1 and 2 at time 1200, the entries 0 and 1
  have ended (at 1099 and 1100) and entry 2 has not: the sweep removes entry 0 only,
  reports 1, and leaves entry 1, which has ended, in the store.
\<close>

theorem gc_sweep_skips_entry_after_removed:
  "expired 1200 (data (example_heap 0))
   \<and> expired 1200 (data (example_heap 1))
   \<and> \<not> expired 1200 (data (example_heap 2))
   \<and> gc_sweep example_heap 1200 \<lparr>items = [0, 1, 2], saveTimerId = None\<rparr> =
       (\<lparr>items = [1, 2], saveTimerId = Some 4200\<rparr>, 1)"
proof (intro conjI)
  show "gc_sweep example_heap 1200 \<lparr>items = [0, 1, 2], saveTimerId = None\<rparr> =
       (\<lparr>items = [1, 2], saveTimerId = Some 4200\<rparr>, 1)"
    by (simp add: gc_sweep_def forEach_gc.simps example_expired ProgramItem_remove_def
        remove_def splice1_def save_def Let_def)
qed (rule example_expired)+

section \<open>Uniqueness of ids\<close>

lemma unique_ids_gc_sweep: "unique_ids h s \<Longrightarrow> unique_ids h (fst (gc_sweep h now s))"
  using forEach_gc_unique [of h "(s, 0)" now 0 "length (items s)"]
  by (simp add: gc_sweep_def)

text \<open>
  C5. "No two entries of the store have the same id" holds of the empty store the class
  starts with, and every operation of the store keeps it: \<open>add\<close>, \<open>remove\<close>, a load (whose
  constructed entries register through \<open>add\<close>) and a sweep of the garbage collector
  (whose entries remove themselves through \<open>remove\<close>).
\<close>

theorem unique_ids_preserved:
  "unique_ids h initial
   \<and> (unique_ids h s \<longrightarrow> unique_ids h (add h t e s))
   \<and> (unique_ids h s \<longrightarrow> unique_ids h (remove t e s))
   \<and> (unique_ids h s \<longrightarrow> unique_ids h (priv_load now (ProgramItem_new h obj t) recs s))
   \<and> (unique_ids h s \<longrightarrow> unique_ids h (fst (gc_sweep h now s)))"
proof (intro conjI impI)
  show "unique_ids h initial"
    by (simp add: unique_ids_def initial_def)
  show "unique_ids h s \<Longrightarrow> unique_ids h (add h t e s)"
    by (rule unique_ids_add)
  show "unique_ids h s \<Longrightarrow> unique_ids h (remove t e s)"
    by (rule unique_ids_remove)
  show "unique_ids h s \<Longrightarrow> unique_ids h (priv_load now (ProgramItem_new h obj t) recs s)"
    by (rule unique_ids_load)
  show "unique_ids h s \<Longrightarrow> unique_ids h (fst (gc_sweep h now s))"
    by (rule unique_ids_gc_sweep)
qed

theorem unique_ids_preserved_witness:
  "unique_ids example_heap example_store
   \<and> unique_ids example_heap (add example_heap 50 7 example_store)
   \<and> unique_ids example_heap (remove 50 2 example_store)
   \<and> unique_ids example_heap
        (priv_load 1200 (ProgramItem_new example_heap example_obj 50)
           [current_record, anonymous_record] example_store)
   \<and> unique_ids example_heap (fst (gc_sweep example_heap 1200 example_store))"
proof -
  have start: "unique_ids example_heap example_store"
    by (simp add: unique_ids_def example_store_def example_heap_simps)
  note inst = unique_ids_preserved
    [where h = example_heap and s = example_store and t = 50 and now = 1200
       and obj = example_obj and recs = "[current_record, anonymous_record]"]
  from inst [of 7] inst [of 2] start have
    "unique_ids example_heap (add example_heap 50 7 example_store)"
    "unique_ids example_heap (remove 50 2 example_store)"
    "unique_ids example_heap
        (priv_load 1200 (ProgramItem_new example_heap example_obj 50)
           [current_record, anonymous_record] example_store)"
    "unique_ids example_heap (fst (gc_sweep example_heap 1200 example_store))"
    by blast+
  with start show ?thesis by blast
qed

section \<open>Identity encoding\<close>

declare dec_digits.simps [simp del] bit_length.simps [simp del]

lemma of_char_digit_char: "d < 10 \<Longrightarrow> (of_char (digit_char d) :: nat) = 48 + d"
  by (simp add: digit_char_def)

lemma digit_char_props:
  assumes "d < 10"
  shows "is_digit (digit_char d)" and "digit_val (digit_char d) = d"
  using assms by (simp_all add: is_digit_def digit_val_def of_char_digit_char)

lemma zero_char_props: "is_digit (CHR ''0'')" "digit_val (CHR ''0'') = 0"
  by (simp_all add: is_digit_def digit_val_def)

lemma is_digit_not_sign:
  assumes "is_digit c"
  shows "c \<noteq> CHR ''-''" and "c \<noteq> CHR ''+''" and "\<not> is_space c"
  using assms by (auto simp: is_digit_def is_space_def)

lemma dec_digits_digits: "\<forall>c\<in>set (dec_digits n). is_digit c"
proof (induction n rule: dec_digits.induct)
  case (1 n)
  show ?case
  proof (cases "n < 10")
    case True
    then show ?thesis by (subst dec_digits.simps) (simp add: digit_char_props)
  next
    case False
    have "n mod 10 < 10" by simp
    with False "1.IH" show ?thesis
      by (subst dec_digits.simps) (auto simp: digit_char_props)
  qed
qed

lemma dec_digits_nonempty: "dec_digits n \<noteq> []"
  by (subst dec_digits.simps) simp

lemma digits_value_snoc: "digits_value (xs @ [c]) = 10 * digits_value xs + digit_val c"
  by (simp add: digits_value_def)

lemma digits_value_dec_digits: "digits_value (dec_digits n) = n"
proof (induction n rule: dec_digits.induct)
  case (1 n)
  show ?case
  proof (cases "n < 10")
    case True
    then show ?thesis
      by (subst dec_digits.simps) (simp add: digits_value_def digit_char_props)
  next
    case False
    have "n mod 10 < 10" by simp
    then have "digit_val (digit_char (n mod 10)) = n mod 10"
      by (rule digit_char_props)
    with False "1.IH" show ?thesis
      by (subst dec_digits.simps) (simp add: digits_value_snoc)
  qed
qed

lemma length_dec_digits: "n < 10 ^ Suc k \<Longrightarrow> length (dec_digits n) \<le> Suc k"
proof (induction k arbitrary: n)
  case 0
  then show ?case by (subst dec_digits.simps) simp
next
  case (Suc k)
  show ?case
  proof (cases "n < 10")
    case True
    then show ?thesis by (subst dec_digits.simps) simp
  next
    case False
    from Suc.prems have "n div 10 < 10 ^ Suc k" by (simp add: less_mult_imp_div_less)
    then have "length (dec_digits (n div 10)) \<le> Suc k" by (rule Suc.IH)
    with False show ?thesis by (subst dec_digits.simps) simp
  qed
qed

lemma digits_value_append:
  "digits_value (xs @ ys) = digits_value xs * 10 ^ length ys + digits_value ys"
proof (induction ys rule: rev_induct)
  case Nil
  then show ?case by (simp add: digits_value_def)
next
  case (snoc y ys)
  have "digits_value (xs @ ys @ [y]) = 10 * digits_value (xs @ ys) + digit_val y"
    using digits_value_snoc [of "xs @ ys" y] by simp
  with snoc show ?case
    by (simp add: digits_value_snoc algebra_simps)
qed

lemma digits_value_zeros: "digits_value (replicate k (CHR ''0'')) = 0"
proof (induction k)
  case 0
  then show ?case by (simp add: digits_value_def)
next
  case (Suc k)
  have "replicate (Suc k) (CHR ''0'') = replicate k (CHR ''0'') @ [CHR ''0'']"
    by (simp add: replicate_append_same)
  then have "digits_value (replicate (Suc k) (CHR ''0'')) =
      10 * digits_value (replicate k (CHR ''0'')) + digit_val (CHR ''0'')"
    by (simp only: digits_value_snoc)
  with Suc show ?case by (simp add: zero_char_props)
qed

text \<open>The five digits that \<open>(v / 100000).toFixed(5).slice(2)\<close> leaves of \<open>0 \<le> v < 100000\<close>.\<close>

lemma slice2_toFixed5:
  assumes "0 \<le> v" and "v < 100000"
  shows "slice2 (toFixed5 v) =
           replicate (5 - length (dec_digits (nat v))) (CHR ''0'') @ dec_digits (nat v)"
proof -
  have "nat v < 10 ^ Suc 4" using assms by simp
  then have len: "length (dec_digits (nat v)) \<le> 5"
    using length_dec_digits [of "nat v" 4] by simp
  have pos: "dec_digits (nat v) \<noteq> []" by (rule dec_digits_nonempty)
  then have len0: "0 < length (dec_digits (nat v))" by simp
  define m where "m = dec_digits (nat v)"
  define z where "z = 5 - length m"
  from len len0 have six: "6 - length m = Suc z" and tot: "length m + z = 5"
    by (simp_all add: m_def z_def)
  from tot have one: "z + length m - 4 = Suc 0" by simp
  have "toFixed5 v = CHR ''0'' # CHR ''.'' # replicate z (CHR ''0'') @ m"
    using assms(1) len six
    by (simp add: toFixed5_def Let_def m_def [symmetric] one)
  then show ?thesis
    by (simp add: slice2_def m_def z_def)
qed

lemma slice2_toFixed5_props:
  assumes "0 \<le> v" and "v < 100000"
  shows "length (slice2 (toFixed5 v)) = 5"
    and "\<forall>c\<in>set (slice2 (toFixed5 v)). is_digit c"
    and "digits_value (slice2 (toFixed5 v)) = nat v"
proof -
  have "nat v < 10 ^ Suc 4" using assms by simp
  then have len: "length (dec_digits (nat v)) \<le> 5"
    using length_dec_digits [of "nat v" 4] by simp
  note eq = slice2_toFixed5 [OF assms]
  from len show "length (slice2 (toFixed5 v)) = 5"
    by (simp add: eq)
  show "\<forall>c\<in>set (slice2 (toFixed5 v)). is_digit c"
    using dec_digits_digits [of "nat v"] by (auto simp: eq zero_char_props)
  show "digits_value (slice2 (toFixed5 v)) = nat v"
    by (simp add: eq digits_value_append digits_value_zeros digits_value_dec_digits)
qed

lemma parseInt10_digits:
  assumes "str \<noteq> []" and "\<forall>c\<in>set str. is_digit c"
  shows "parseInt10 str = Some (round_double (int (digits_value str)))"
proof -
  from assms obtain c cs where str: "str = c # cs" by (cases str) auto
  with assms(2) have c: "is_digit c" by simp
  have drop: "dropWhile is_space str = str"
    using is_digit_not_sign(3) [OF c] by (simp add: str)
  have take: "takeWhile is_digit str = str"
    using assms(2) by (simp add: takeWhile_eq_all_conv)
  show ?thesis
    unfolding parseInt10_def drop Let_def
    using is_digit_not_sign(1,2) [OF c] assms(1) take by (simp add: str)
qed

lemma bit_length_le: "n < 2 ^ k \<Longrightarrow> bit_length n \<le> k"
proof (induction k arbitrary: n)
  case 0
  then show ?case by (subst bit_length.simps) simp
next
  case (Suc k)
  show ?case
  proof (cases "n = 0")
    case True
    then show ?thesis by (subst bit_length.simps) simp
  next
    case False
    from Suc.prems have "n div 2 < 2 ^ k" by (simp add: less_mult_imp_div_less)
    then have "bit_length (n div 2) \<le> k" by (rule Suc.IH)
    with False show ?thesis by (subst bit_length.simps) simp
  qed
qed

lemma round_double_exact:
  assumes "0 \<le> v" and "v < 2 ^ 53"
  shows "round_double v = v"
proof -
  have "nat \<bar>v\<bar> < 2 ^ 53" using assms by (simp add: nat_less_iff)
  then have "bit_length (nat \<bar>v\<bar>) - 53 = 0"
    using bit_length_le [of "nat \<bar>v\<bar>" 53] by simp
  then show ?thesis
    using assms(1) by (cases "v = 0") (simp_all add: round_double_def Let_def)
qed

lemma getProgramId_packed:
  assumes "0 \<le> nid" and "0 \<le> sid" and "sid < 100000" and "0 \<le> eid" and "eid < 100000"
  shows "getProgramId nid sid eid =
           Some (round_double (nid * 10000000000 + sid * 100000 + eid))"
proof -
  let ?n = "dec_digits (nat nid)"
  let ?s = "slice2 (toFixed5 sid)"
  let ?e = "slice2 (toFixed5 eid)"
  note sp = slice2_toFixed5_props [OF assms(2,3)]
  note ep = slice2_toFixed5_props [OF assms(4,5)]
  have str: "Number_toString nid @ ?s @ ?e = ?n @ ?s @ ?e"
    using assms(1) by (simp add: Number_toString_def)
  have nonempty: "?n @ ?s @ ?e \<noteq> []"
    by (simp add: dec_digits_nonempty)
  have digits: "\<forall>c\<in>set (?n @ ?s @ ?e). is_digit c"
    using dec_digits_digits [of "nat nid"] sp(2) ep(2) by auto
  have "digits_value (?n @ ?s @ ?e) = (nat nid * 10 ^ 5 + nat sid) * 10 ^ 5 + nat eid"
    using digits_value_append [of ?n "?s @ ?e"] digits_value_append [of ?s ?e]
    by (simp add: sp ep digits_value_dec_digits algebra_simps)
  then have "int (digits_value (?n @ ?s @ ?e)) = nid * 10000000000 + sid * 100000 + eid"
    using assms by simp
  with parseInt10_digits [OF nonempty digits] show ?thesis
    by (simp add: getProgramId_def str)
qed

lemma bit_length_example: "bit_length 9007200000000001 = 54"
  by (simp add: bit_length.simps)

lemma round_double_example: "round_double 9007200000000001 = 9007200000000000"
  unfolding round_double_def by (simp add: bit_length_example Let_def)

lemma bit_length_example0: "bit_length 9007200000000000 = 54"
  by (simp add: bit_length.simps)

lemma round_double_example0: "round_double 9007200000000000 = 9007200000000000"
  unfolding round_double_def by (simp add: bit_length_example0 Let_def)

lemma pack_unique:
  fixes a b a' b' :: int
  assumes eq: "a * 100000 + b = a' * 100000 + b'"
    and "0 \<le> b" and "b < 100000" and "0 \<le> b'" and "b' < 100000"
  shows "a = a' \<and> b = b'"
proof -
  have "(a * 100000 + b) mod 100000 = b" and "(a' * 100000 + b') mod 100000 = b'"
    using assms(2-5) by simp_all
  with eq have lo: "b = b'" by simp
  with eq have "a * 100000 = a' * 100000" by simp
  then have "a = a'" by simp
  with lo show ?thesis by simp
qed

text \<open>
  C2, as amended. \<open>getProgramId\<close> is a function of its three arguments. For a positive
  \<open>networkId\<close> of at most 900718 and \<open>serviceId\<close> and \<open>eventId\<close> in \<open>[0, 100000)\<close> it is the
  decimal packing \<open>networkId * 10^10 + serviceId * 10^5 + eventId\<close>, which stays below
  \<open>2^53\<close> and so is held exactly, and two such triples have the same id only if they are
  the same triple. (Every 16-bit network id is within the bound.)
\<close>

theorem getProgramId_injective_below_2_53:
  "(0 < nid \<and> nid \<le> 900718 \<and> 0 \<le> sid \<and> sid < 100000 \<and> 0 \<le> eid \<and> eid < 100000
      \<longrightarrow> getProgramId nid sid eid = Some (nid * 10000000000 + sid * 100000 + eid))
   \<and> (0 < nid \<and> nid \<le> 900718 \<and> 0 \<le> sid \<and> sid < 100000 \<and> 0 \<le> eid \<and> eid < 100000 \<and>
       0 < nid' \<and> nid' \<le> 900718 \<and> 0 \<le> sid' \<and> sid' < 100000 \<and> 0 \<le> eid' \<and> eid' < 100000
      \<longrightarrow> (getProgramId nid sid eid = getProgramId nid' sid' eid'
            \<longleftrightarrow> nid = nid' \<and> sid = sid' \<and> eid = eid'))"
proof -
  have packed: "getProgramId n s e = Some (n * 10000000000 + s * 100000 + e)"
    if "0 < n" "n \<le> 900718" "0 \<le> s" "s < 100000" "0 \<le> e" "e < 100000" for n s e :: int
  proof -
    from that have "0 \<le> n * 10000000000 + s * 100000 + e"
      and "n * 10000000000 + s * 100000 + e < 2 ^ 53"
      by simp_all
    then have "round_double (n * 10000000000 + s * 100000 + e) =
        n * 10000000000 + s * 100000 + e"
      by (rule round_double_exact)
    with getProgramId_packed [of n s e] that show ?thesis by simp
  qed
  have inj: "n = n' \<and> s = s' \<and> e = e'"
    if eq: "n * 10000000000 + s * 100000 + e = n' * 10000000000 + s' * 100000 + e'"
      and b: "0 \<le> s" "s < 100000" "0 \<le> e" "e < 100000"
        "0 \<le> s'" "s' < 100000" "0 \<le> e'" "e' < 100000" for n s e n' s' e' :: int
  proof -
    from eq have "(n * 100000 + s) * 100000 + e = (n' * 100000 + s') * 100000 + e'"
      by (simp add: algebra_simps)
    from pack_unique [OF this b(3,4,7,8)]
    have outer: "n * 100000 + s = n' * 100000 + s'" and e: "e = e'" by simp_all
    from pack_unique [OF outer b(1,2,5,6)] e show ?thesis by simp
  qed
  show ?thesis
  proof (intro conjI impI)
    assume "0 < nid \<and> nid \<le> 900718 \<and> 0 \<le> sid \<and> sid < 100000 \<and> 0 \<le> eid \<and> eid < 100000"
    then show "getProgramId nid sid eid = Some (nid * 10000000000 + sid * 100000 + eid)"
      by (simp add: packed)
  next
    assume h: "0 < nid \<and> nid \<le> 900718 \<and> 0 \<le> sid \<and> sid < 100000 \<and> 0 \<le> eid \<and> eid < 100000 \<and>
       0 < nid' \<and> nid' \<le> 900718 \<and> 0 \<le> sid' \<and> sid' < 100000 \<and> 0 \<le> eid' \<and> eid' < 100000"
    then have g: "getProgramId nid sid eid = Some (nid * 10000000000 + sid * 100000 + eid)"
      and g': "getProgramId nid' sid' eid' = Some (nid' * 10000000000 + sid' * 100000 + eid')"
      by (simp_all add: packed)
    show "getProgramId nid sid eid = getProgramId nid' sid' eid'
            \<longleftrightarrow> nid = nid' \<and> sid = sid' \<and> eid = eid'"
    proof
      assume "getProgramId nid sid eid = getProgramId nid' sid' eid'"
      with g g' have "nid * 10000000000 + sid * 100000 + eid =
          nid' * 10000000000 + sid' * 100000 + eid'"
        by simp
      then show "nid = nid' \<and> sid = sid' \<and> eid = eid'"
        by (rule inj) (use h in simp_all)
    next
      assume "nid = nid' \<and> sid = sid' \<and> eid = eid'"
      then show "getProgramId nid sid eid = getProgramId nid' sid' eid'"
        by simp
    qed
  qed
qed

theorem getProgramId_injective_below_2_53_witness:
  "getProgramId 32736 1024 40085 = Some 327360102440085
   \<and> getProgramId 32736 1024 40086 = Some 327360102440086
   \<and> getProgramId 32736 1024 40085 \<noteq> getProgramId 32736 1024 40086"
proof -
  note inst = getProgramId_injective_below_2_53
    [where nid = 32736 and sid = 1024 and eid = 40085
       and nid' = 32736 and sid' = 1024 and eid' = 40086]
  note inst' = getProgramId_injective_below_2_53
    [where nid = 32736 and sid = 1024 and eid = 40086
       and nid' = 32736 and sid' = 1024 and eid' = 40086]
  from inst have a: "getProgramId 32736 1024 40085 = Some 327360102440085" by simp
  from inst' have b: "getProgramId 32736 1024 40086 = Some 327360102440086" by simp
  from inst [THEN conjunct2]
  have "getProgramId 32736 1024 40085 = getProgramId 32736 1024 40086 \<longleftrightarrow>
      (32736::int) = 32736 \<and> (1024::int) = 1024 \<and> (40085::int) = 40086"
    by simp
  then have c: "getProgramId 32736 1024 40085 \<noteq> getProgramId 32736 1024 40086"
    by simp
  show ?thesis by (rule conjI [OF a conjI [OF b c]])
qed

text \<open>
  Above \<open>2^53\<close> distinct triples collide: with network id 900720 the packed decimals
  9007200000000000 and 9007200000000001 are the same number.
\<close>

theorem getProgramId_collision_counterexample:
  "getProgramId 900720 0 0 = Some 9007200000000000
   \<and> getProgramId 900720 0 1 = Some 9007200000000000"
  by (simp add: getProgramId_packed round_double_example round_double_example0)

section \<open>Debounced saving\<close>

lemma run_timers_idle:
  "(\<forall>d. saveTimerId (store w) = Some d \<longrightarrow> t < d) \<Longrightarrow> run_timers h t w = w"
  by (auto simp: run_timers_def split: option.splits)

lemma run_timers_fire:
  "saveTimerId (store w) = Some d \<Longrightarrow> d \<le> t \<Longrightarrow>
     run_timers h t w =
       w\<lparr>store := (store w)\<lparr>saveTimerId := None\<rparr>,
         written := written w @ [(d, priv_save h (store w))]\<rparr>"
  by (simp add: run_timers_def)

lemma request_idle:
  assumes "\<forall>d. saveTimerId (store w) = Some d \<longrightarrow> t < d"
  shows "request h (t, f) w =
           w\<lparr>store := \<lparr>items = f (items (store w)), saveTimerId = Some (t + 3000)\<rparr>\<rparr>"
  using run_timers_idle [OF assms, of h] by (simp add: save_def Let_def)

lemma burst_coalesces:
  "saveTimerId (store w) = Some (t + 3000) \<Longrightarrow> within_window t (map fst reqs) \<Longrightarrow>
     written (fold (request h) reqs w) = written w
     \<and> saveTimerId (store (fold (request h) reqs w)) = Some (last (t # map fst reqs) + 3000)
     \<and> items (store (fold (request h) reqs w)) = fold snd reqs (items (store w))"
proof (induction reqs arbitrary: w t)
  case Nil
  then show ?case by simp
next
  case (Cons req reqs)
  obtain t' f where req: "req = (t', f)" by (cases req)
  from Cons.prems(2) req have win: "t \<le> t'" "t' < t + 3000" "within_window t' (map fst reqs)"
    by simp_all
  let ?w = "w\<lparr>store := \<lparr>items = f (items (store w)), saveTimerId = Some (t' + 3000)\<rparr>\<rparr>"
  have step: "request h (t', f) w = ?w"
    using Cons.prems(1) win(2) by (intro request_idle) simp
  have armed: "saveTimerId (store ?w) = Some (t' + 3000)" by simp
  from Cons.IH [OF armed win(3)] show ?case
    by (simp add: req step del: request.simps)
qed

text \<open>
  C7. Take a burst of \<open>N \<ge> 1\<close> calls of \<open>save()\<close>, the first at a time when no save timer
  is due and each later one before the timer armed by the one before it is due (less
  than 3000 ms after it); the array may change at each call, as it does in \<open>add\<close> and
  \<open>remove\<close>. Then nothing is written during the burst nor before 3000 ms have passed
  since the last call; at that time exactly one write happens, of the data of all entries
  of the array as it then is; and nothing more is written afterwards.
\<close>

theorem save_burst_writes_once:
  assumes idle: "\<forall>d. saveTimerId (store w) = Some d \<longrightarrow> t0 < d"
    and win: "within_window t0 (map fst reqs)"
    and w': "w' = fold (request h) ((t0, f0) # reqs) w"
    and tN: "tN = last (t0 # map fst reqs)"
  shows "written w' = written w
    \<and> items (store w') = fold snd ((t0, f0) # reqs) (items (store w))
    \<and> (\<forall>T. T < tN + 3000 \<longrightarrow> run_timers h T w' = w')
    \<and> (\<forall>T. tN + 3000 \<le> T \<longrightarrow>
          written (run_timers h T w') =
            written w @ [(tN + 3000, map (\<lambda>r. data (h r)) (items (store w')))]
          \<and> items (store (run_timers h T w')) = items (store w')
          \<and> (\<forall>T'. run_timers h T' (run_timers h T w') = run_timers h T w'))"
proof -
  let ?w1 = "w\<lparr>store := \<lparr>items = f0 (items (store w)), saveTimerId = Some (t0 + 3000)\<rparr>\<rparr>"
  have first: "request h (t0, f0) w = ?w1"
    using idle by (rule request_idle)
  have armed: "saveTimerId (store ?w1) = Some (t0 + 3000)" by simp
  from burst_coalesces [OF armed win, of h] first w' tN
  have wr: "written w' = written w"
    and timer: "saveTimerId (store w') = Some (tN + 3000)"
    and its: "items (store w') = fold snd ((t0, f0) # reqs) (items (store w))"
    by (simp_all del: request.simps)
  have before: "\<forall>T. T < tN + 3000 \<longrightarrow> run_timers h T w' = w'"
    using timer by (auto intro: run_timers_idle)
  have after: "\<forall>T. tN + 3000 \<le> T \<longrightarrow>
          written (run_timers h T w') =
            written w @ [(tN + 3000, map (\<lambda>r. data (h r)) (items (store w')))]
          \<and> items (store (run_timers h T w')) = items (store w')
          \<and> (\<forall>T'. run_timers h T' (run_timers h T w') = run_timers h T w')"
  proof (intro allI impI)
    fix T assume due: "tN + 3000 \<le> T"
    note fired = run_timers_fire [OF timer due, of h]
    have none: "saveTimerId (store (run_timers h T w')) = None"
      by (simp add: fired)
    have "\<forall>T'. run_timers h T' (run_timers h T w') = run_timers h T w'"
      using none by (auto intro: run_timers_idle)
    then show "written (run_timers h T w') =
            written w @ [(tN + 3000, map (\<lambda>r. data (h r)) (items (store w')))]
          \<and> items (store (run_timers h T w')) = items (store w')
          \<and> (\<forall>T'. run_timers h T' (run_timers h T w') = run_timers h T w')"
      by (simp add: fired wr priv_save_def)
  qed
  from wr its before after show ?thesis by blast
qed

theorem save_burst_writes_once_witness:
  "written (fold (request example_heap) [(0, id), (1000, tl), (3500, butlast)]
      \<lparr>store = example_store, written = []\<rparr>) = []
   \<and> written (run_timers example_heap 6499
        (fold (request example_heap) [(0, id), (1000, tl), (3500, butlast)]
           \<lparr>store = example_store, written = []\<rparr>)) = []
   \<and> written (run_timers example_heap 6500
        (fold (request example_heap) [(0, id), (1000, tl), (3500, butlast)]
           \<lparr>store = example_store, written = []\<rparr>)) =
       [(6500, map (\<lambda>r. data (example_heap r)) [1, 2, 3])]
   \<and> written (run_timers example_heap 99999 (run_timers example_heap 6500
        (fold (request example_heap) [(0, id), (1000, tl), (3500, butlast)]
           \<lparr>store = example_store, written = []\<rparr>))) =
       [(6500, map (\<lambda>r. data (example_heap r)) [1, 2, 3])]"
proof -
  define w0 where "w0 = \<lparr>store = example_store, written = []\<rparr>"
  define w1 where "w1 = fold (request example_heap) ((0, id) # [(1000, tl), (3500, butlast)]) w0"
  have idle: "\<forall>d. saveTimerId (store w0) = Some d \<longrightarrow> 0 < d"
    by (simp add: w0_def example_store_def)
  have win: "within_window 0 (map fst [(1000, tl :: ref list \<Rightarrow> ref list), (3500, butlast)])"
    by simp
  note inst = save_burst_writes_once
    [OF idle win w1_def refl]
  from inst have quiet: "written w1 = written w0"
    and its: "items (store w1) = fold snd [(0, id), (1000, tl), (3500, butlast)] (items (store w0))"
    and before: "run_timers example_heap 6499 w1 = w1"
    and fire: "written (run_timers example_heap 6500 w1) =
        written w0 @ [(6500, map (\<lambda>r. data (example_heap r)) (items (store w1)))]"
    and once: "run_timers example_heap 99999 (run_timers example_heap 6500 w1) =
        run_timers example_heap 6500 w1"
    by simp_all
  from its have its': "items (store w1) = [1, 2, 3]"
    by (simp add: w0_def example_store_def)
  from quiet before fire once its' show ?thesis
    unfolding w1_def w0_def by simp
qed

end
